theory Spec2Isabelle
  imports Complex_Main "HOL-Library.AList" "HOL-Library.Multiset" "HOL-Library.Option_ord"
begin

section \<open>JavaScript values of the payloads\<close>

text \<open>
  The fields of a socket.io payload are JSON scalars, or absent. A field that is absent
  reads as \<open>undefined\<close>. A payload object is an association list from property names to
  values, in the order of its properties. The payloads of \<open>add_event\<close>, \<open>update_event\<close>
  and \<open>manual_delete_old_events\<close> are objects, as the client sends them; the payload of
  \<open>delete_event\<close> is any value. A number is the value of the double that arrives.
\<close>

datatype jsval = JUndefined | JNull | JBool bool | JNum real | JStr string

type_synonym jsobj = "(string \<times> jsval) list"

definition get_prop :: "jsobj \<Rightarrow> string \<Rightarrow> jsval" where
  "get_prop obj k = (case map_of obj k of None \<Rightarrow> JUndefined | Some v \<Rightarrow> v)"

text \<open>JavaScript's ToBoolean on these values, and \<open>a || b\<close>.\<close>

fun truthy :: "jsval \<Rightarrow> bool" where
  "truthy JUndefined = False"
| "truthy JNull = False"
| "truthy (JBool b) = b"
| "truthy (JNum r) = (r \<noteq> 0)"
| "truthy (JStr s) = (s \<noteq> [])"

definition js_or :: "jsval \<Rightarrow> jsval \<Rightarrow> jsval" where
  "js_or a b = (if truthy a then a else b)"

text \<open>
  A Date is its time value in milliseconds since the epoch; \<open>None\<close> is the Invalid Date
  (time value NaN). \<open>new Date(v)\<close> parses a string and converts any other value to a
  number, which TimeClip bounds and truncates. The parser of date strings is the engine's:
  it is the parameter \<open>P\<close>, giving \<open>None\<close> for a string it cannot read.
\<close>

type_synonym jsdate = "int option"

definition TimeClip :: "real \<Rightarrow> jsdate" where
  "TimeClip r = (if \<bar>r\<bar> > 8640000000000000 then None
                 else Some (if r < 0 then \<lceil>r\<rceil> else \<lfloor>r\<rfloor>))"

fun new_Date :: "(string \<Rightarrow> int option) \<Rightarrow> jsval \<Rightarrow> jsdate" where
  "new_Date P JUndefined = None"
| "new_Date P JNull = Some 0"
| "new_Date P (JBool b) = Some (if b then 1 else 0)"
| "new_Date P (JNum r) = TimeClip r"
| "new_Date P (JStr s) = P s"

section \<open>The document store\<close>

text \<open>
  A stored field is a plain value, or a Timestamp (what the store makes of a Date). A
  document is its field map, the collection a list of documents under their ids.
\<close>

datatype fval = FJs jsval | FTime jsdate

type_synonym doc = "(string \<times> fval) list"

type_synonym store = "(string \<times> doc) list"

datatype error = StoreFailure | InvalidArgument | TypeError | RangeError

text \<open>
  Modelled from the spec: the document store behind \<open>eventsCollection\<close> is the external
  Firestore service, whose code is not part of the repository. The spec treats it as an
  opaque collection with the contract list-ordered-by(field), add, update-by-id,
  delete-by-id and an atomic batch delete. Each call takes the outcome \<open>ok\<close> that the
  service gives it (network, authorisation, quota); a failed call leaves the collection
  as it was. \<open>add\<close> stores the document under the id the store generates; \<open>update\<close>
  overwrites the given fields of an existing document and keeps its other fields, and
  fails when the id names no document; \<open>delete\<close> of an id that names no document succeeds.
\<close>

definition coll_doc :: "jsval \<Rightarrow> error + string" where
  "coll_doc v = (case v of JStr s \<Rightarrow> (if s = [] then Inl InvalidArgument else Inr s)
                 | _ \<Rightarrow> Inl InvalidArgument)"

definition coll_add :: "bool \<Rightarrow> string \<Rightarrow> doc \<Rightarrow> store \<Rightarrow> error + store" where
  "coll_add ok newid d st =
     (if ok \<and> newid \<notin> set (map fst st) then Inr (st @ [(newid, d)]) else Inl StoreFailure)"

definition write_fields :: "doc \<Rightarrow> doc \<Rightarrow> doc" where
  "write_fields fields d = fold (\<lambda>(k, v). AList.update k v) fields d"

definition doc_update :: "bool \<Rightarrow> string \<Rightarrow> doc \<Rightarrow> store \<Rightarrow> error + store" where
  "doc_update ok i fields st =
     (if ok \<and> i \<in> set (map fst st)
      then Inr (map (\<lambda>(k, d). if k = i then (k, write_fields fields d) else (k, d)) st)
      else Inl StoreFailure)"

definition doc_delete :: "bool \<Rightarrow> string \<Rightarrow> store \<Rightarrow> error + store" where
  "doc_delete ok i st = (if ok then Inr (filter (\<lambda>(k, d). k \<noteq> i) st) else Inl StoreFailure)"

text \<open>
  \<open>orderBy('start').get()\<close>: the documents that have a \<open>start\<close> field, by ascending
  \<open>start\<close>. The Invalid Date sorts first; documents with equal keys keep the order of the
  collection.
\<close>

definition has_start :: "string \<times> doc \<Rightarrow> bool" where
  "has_start e = (map_of (snd e) ''start'' \<noteq> None)"

definition start_key :: "string \<times> doc \<Rightarrow> int option" where
  "start_key e = (case map_of (snd e) ''start'' of Some (FTime t) \<Rightarrow> t | _ \<Rightarrow> None)"

definition orderBy_start_get :: "bool \<Rightarrow> store \<Rightarrow> error + store" where
  "orderBy_start_get ok st =
     (if ok then Inr (sort_key start_key (filter has_start st)) else Inl StoreFailure)"

text \<open>
  \<open>where('end', '<', beforeDate).get()\<close>: the documents whose \<open>end\<close> is a Timestamp
  strictly before the cutoff. An Invalid Date is before nothing.
\<close>

definition end_before :: "int \<Rightarrow> string \<times> doc \<Rightarrow> bool" where
  "end_before c e = (case map_of (snd e) ''end'' of Some (FTime (Some t)) \<Rightarrow> t < c | _ \<Rightarrow> False)"

definition where_end_lt_get :: "bool \<Rightarrow> int \<Rightarrow> store \<Rightarrow> error + store" where
  "where_end_lt_get ok c st = (if ok then Inr (filter (end_before c) st) else Inl StoreFailure)"

text \<open>\<open>batch.commit()\<close> of a batch of deletes: all of them, or none.\<close>

definition batch_commit :: "bool \<Rightarrow> string list \<Rightarrow> store \<Rightarrow> error + store" where
  "batch_commit ok ids st =
     (if ok then Inr (filter (\<lambda>(k, d). k \<notin> set ids) st) else Inl StoreFailure)"

section \<open>Events on the wire\<close>

text \<open>
  The object built for each document of a snapshot:
  \<open>{ id: doc.id, ...doc.data(), start: doc.data().start.toDate(), end: doc.data().end.toDate() }\<close>.
  \<open>toDate\<close> exists on a Timestamp only: on any other value, or on a missing field,
  the call throws.
\<close>

datatype wval = WJs jsval | WTimestamp jsdate | WDate jsdate

type_synonym event = "(string \<times> wval) list"

fun wire :: "fval \<Rightarrow> wval" where
  "wire (FJs v) = WJs v"
| "wire (FTime t) = WTimestamp t"

fun toDate :: "fval option \<Rightarrow> error + jsdate" where
  "toDate (Some (FTime t)) = Inr t"
| "toDate _ = Inl TypeError"

definition spread :: "doc \<Rightarrow> event \<Rightarrow> event" where
  "spread d obj = fold (\<lambda>(k, v). AList.update k (wire v)) d obj"

definition to_event :: "string \<times> doc \<Rightarrow> error + event" where
  "to_event e =
     (case toDate (map_of (snd e) ''start'') of
        Inl x \<Rightarrow> Inl x
      | Inr s \<Rightarrow>
         (case toDate (map_of (snd e) ''end'') of
            Inl x \<Rightarrow> Inl x
          | Inr t \<Rightarrow>
              Inr (AList.update ''end'' (WDate t)
                    (AList.update ''start'' (WDate s)
                      (spread (snd e) [(''id'', WJs (JStr (fst e)))])))))"

fun map_events :: "(string \<times> doc) list \<Rightarrow> error + event list" where
  "map_events [] = Inr []"
| "map_events (e # es) =
     (case to_event e of
        Inl x \<Rightarrow> Inl x
      | Inr v \<Rightarrow> (case map_events es of Inl x \<Rightarrow> Inl x | Inr vs \<Rightarrow> Inr (v # vs)))"

text \<open>The fetch that \<open>broadcastEvents\<close> and the connection handler share, line for line.\<close>

definition fetch_events :: "bool \<Rightarrow> store \<Rightarrow> error + event list" where
  "fetch_events ok st =
     (case orderBy_start_get ok st of Inl x \<Rightarrow> Inl x | Inr docs \<Rightarrow> map_events docs)"

section \<open>The server\<close>

text \<open>
  The state: the collection, the connected sockets, every emit so far with the sockets it
  went to, and the console. \<open>io.emit\<close> goes to all connected sockets, \<open>socket.emit\<close> to
  one. The client listens to three messages.
\<close>

type_synonym session = nat

datatype msg = Initial_events "event list" | New_event event | Events_updated "event list"

datatype logline = Log string | LogError string

record server =
  store :: store
  sockets :: "session list"
  sent :: "(session list \<times> msg) list"
  console :: "logline list"

text \<open>
  What the surroundings answer during one handler: the outcome of the handler's write
  (add, update, delete, commit), of the query of the bulk delete, of the fetch before the
  emit, and the id the store generates for an added document.
\<close>

record env =
  write_ok :: bool
  query_ok :: bool
  fetch_ok :: bool
  auto_id :: string

definition console_log :: "string \<Rightarrow> server \<Rightarrow> server" where
  "console_log l s = s\<lparr>console := console s @ [Log l]\<rparr>"

definition console_error :: "string \<Rightarrow> server \<Rightarrow> server" where
  "console_error l s = s\<lparr>console := console s @ [LogError l]\<rparr>"

definition broadcastEvents :: "bool \<Rightarrow> server \<Rightarrow> server" where
  "broadcastEvents ok s =
     (let s1 = console_log ''Broadcasting events...'' s in
      case fetch_events ok (store s1) of
        Inl x \<Rightarrow> console_error ''Error broadcasting events:'' s1
      | Inr events \<Rightarrow>
          (let s2 = console_log ''Events to broadcast:'' s1 in
           s2\<lparr>sent := sent s2 @ [(sockets s2, Events_updated events)]\<rparr>))"

definition connection :: "env \<Rightarrow> session \<Rightarrow> server \<Rightarrow> server" where
  "connection en sock s =
     (let s1 = console_log ''a user connected'' (s\<lparr>sockets := sockets s @ [sock]\<rparr>) in
      case fetch_events (fetch_ok en) (store s1) of
        Inl x \<Rightarrow> console_error ''Error sending initial events:'' s1
      | Inr events \<Rightarrow> s1\<lparr>sent := sent s1 @ [([sock], Initial_events events)]\<rparr>)"

definition event_fields :: "(string \<Rightarrow> int option) \<Rightarrow> jsobj \<Rightarrow> doc" where
  "event_fields P data =
     [(''title'', FJs (get_prop data ''title'')),
      (''start'', FTime (new_Date P (get_prop data ''start''))),
      (''end'', FTime (new_Date P (get_prop data ''end''))),
      (''isTentative'', FJs (js_or (get_prop data ''isTentative'') (JBool False))),
      (''notes'', FJs (js_or (get_prop data ''notes'') (JStr '''')))]"

definition add_event :: "(string \<Rightarrow> int option) \<Rightarrow> env \<Rightarrow> jsobj \<Rightarrow> server \<Rightarrow> server" where
  "add_event P en newEvent s =
     (case coll_add (write_ok en) (auto_id en) (event_fields P newEvent) (store s) of
        Inl x \<Rightarrow> console_error ''Error adding event:'' s
      | Inr st \<Rightarrow>
          broadcastEvents (fetch_ok en)
            (console_log ''New event added with ID:'' (s\<lparr>store := st\<rparr>)))"

definition update_event :: "(string \<Rightarrow> int option) \<Rightarrow> env \<Rightarrow> jsobj \<Rightarrow> server \<Rightarrow> server" where
  "update_event P en updatedEvent s =
     (let i = get_prop updatedEvent ''id''; data = AList.delete ''id'' updatedEvent in
      case coll_doc i of
        Inl x \<Rightarrow> console_error ''Error updating event:'' s
      | Inr r \<Rightarrow>
         (case doc_update (write_ok en) r (event_fields P data) (store s) of
            Inl x \<Rightarrow> console_error ''Error updating event:'' s
          | Inr st \<Rightarrow>
              broadcastEvents (fetch_ok en)
                (console_log ''Event updated with ID:'' (s\<lparr>store := st\<rparr>))))"

definition delete_event :: "env \<Rightarrow> jsval \<Rightarrow> server \<Rightarrow> server" where
  "delete_event en eventId s =
     (case coll_doc eventId of
        Inl x \<Rightarrow> console_error ''Error deleting event:'' s
      | Inr r \<Rightarrow>
         (case doc_delete (write_ok en) r (store s) of
            Inl x \<Rightarrow> console_error ''Error deleting event:'' s
          | Inr st \<Rightarrow>
              broadcastEvents (fetch_ok en)
                (console_log ''Event deleted with ID:'' (s\<lparr>store := st\<rparr>))))"

definition disconnect :: "session \<Rightarrow> server \<Rightarrow> server" where
  "disconnect sock s =
     console_log ''user disconnected'' (s\<lparr>sockets := removeAll sock (sockets s)\<rparr>)"

text \<open>
  In \<open>manual_delete_old_events\<close> the first log line calls \<open>beforeDate.toISOString()\<close>,
  which throws a RangeError on the Invalid Date: the handler then ends in its catch.
\<close>

definition manual_delete_old_events ::
    "(string \<Rightarrow> int option) \<Rightarrow> env \<Rightarrow> jsobj \<Rightarrow> server \<Rightarrow> server" where
  "manual_delete_old_events P en data s =
     (case new_Date P (get_prop data ''beforeDate'') of
        None \<Rightarrow> console_error ''Error during manual deletion of old events:'' s
      | Some beforeDate \<Rightarrow>
         (let s1 = console_log ''Manual request to delete events before'' s in
          case where_end_lt_get (query_ok en) beforeDate (store s1) of
            Inl x \<Rightarrow> console_error ''Error during manual deletion of old events:'' s1
          | Inr snapshot \<Rightarrow>
              if snapshot = [] then console_log ''No old events to delete.'' s1
              else
               (case batch_commit (write_ok en) (map fst snapshot) (store s1) of
                  Inl x \<Rightarrow> console_error ''Error during manual deletion of old events:'' s1
                | Inr st \<Rightarrow>
                    broadcastEvents (fetch_ok en)
                      (console_log ''Manually deleted old events.'' (s1\<lparr>store := st\<rparr>)))))"

text \<open>The messages the server handles, each with the socket it arrives on.\<close>

datatype input =
    Connection session
  | Add_event session jsobj
  | Update_event session jsobj
  | Delete_event session jsval
  | Manual_delete_old_events session jsobj
  | Disconnect session

fun step :: "(string \<Rightarrow> int option) \<Rightarrow> server \<Rightarrow> input \<times> env \<Rightarrow> server" where
  "step P s (Connection sock, en) = connection en sock s"
| "step P s (Add_event sock p, en) = add_event P en p s"
| "step P s (Update_event sock p, en) = update_event P en p s"
| "step P s (Delete_event sock i, en) = delete_event en i s"
| "step P s (Manual_delete_old_events sock p, en) = manual_delete_old_events P en p s"
| "step P s (Disconnect sock, en) = disconnect sock s"

definition run :: "(string \<Rightarrow> int option) \<Rightarrow> server \<Rightarrow> (input \<times> env) list \<Rightarrow> server" where
  "run P s ins = foldl (step P) s ins"

fun is_mutation :: "input \<Rightarrow> bool" where
  "is_mutation (Add_event sock p) = True"
| "is_mutation (Update_event sock p) = True"
| "is_mutation (Delete_event sock i) = True"
| "is_mutation _ = False"

text \<open>
  The invariant of a collection that only this server writes: every document has
  Timestamps under \<open>start\<close> and \<open>end\<close>.
\<close>

definition timed :: "string \<times> doc \<Rightarrow> bool" where
  "timed e =
     (case map_of (snd e) ''start'' of
        Some (FTime a) \<Rightarrow> (case map_of (snd e) ''end'' of Some (FTime b) \<Rightarrow> True | _ \<Rightarrow> False)
      | _ \<Rightarrow> False)"

subsection \<open>Predicates of the statements\<close>

text \<open>
  What an event on the wire has to hold for a document: the document's \<open>start\<close> and
  \<open>end\<close> as Dates, every other field of the document as stored, and the document's id
  under \<open>id\<close> (unless the document has a field of that name).
\<close>

definition event_field :: "string \<times> doc \<Rightarrow> string \<Rightarrow> wval option" where
  "event_field e k =
     (if k = ''start'' \<or> k = ''end''
      then (case map_of (snd e) k of Some (FTime t) \<Rightarrow> Some (WDate t) | _ \<Rightarrow> None)
      else (case map_of (snd e) k of
              Some v \<Rightarrow> Some (wire v)
            | None \<Rightarrow> if k = ''id'' then Some (WJs (JStr (fst e))) else None))"

text \<open>A document is a field map: no field name occurs twice.\<close>

definition fields_distinct :: "string \<times> doc \<Rightarrow> bool" where
  "fields_distinct e = distinct (map fst (snd e))"



text \<open>
  An event is older than a cutoff when its \<open>end\<close> is a time strictly before it; nothing
  is older than the Invalid Date.
\<close>

definition older_than :: "jsdate \<Rightarrow> string \<times> doc \<Rightarrow> bool" where
  "older_than c e = (case c of None \<Rightarrow> False | Some t \<Rightarrow> end_before t e)"


text \<open>
  The store operation of a mutation handler fails: the reference or the write of add,
  update and delete, the query of the bulk delete, or the commit of its batch.
\<close>

fun store_fails :: "(string \<Rightarrow> int option) \<Rightarrow> env \<Rightarrow> input \<Rightarrow> server \<Rightarrow> bool" where
  "store_fails P en (Add_event sock p) s =
     isl (coll_add (write_ok en) (auto_id en) (event_fields P p) (store s))"
| "store_fails P en (Update_event sock p) s =
     (case coll_doc (get_prop p ''id'') of
        Inl x \<Rightarrow> True
      | Inr r \<Rightarrow> isl (doc_update (write_ok en) r (event_fields P (AList.delete ''id'' p)) (store s)))"
| "store_fails P en (Delete_event sock v) s =
     (case coll_doc v of Inl x \<Rightarrow> True | Inr r \<Rightarrow> isl (doc_delete (write_ok en) r (store s)))"
| "store_fails P en (Manual_delete_old_events sock p) s =
     (case new_Date P (get_prop p ''beforeDate'') of
        None \<Rightarrow> False
      | Some c \<Rightarrow>
         (case where_end_lt_get (query_ok en) c (store s) of
            Inl x \<Rightarrow> True
          | Inr snapshot \<Rightarrow>
              snapshot \<noteq> [] \<and> isl (batch_commit (write_ok en) (map fst snapshot) (store s))))"
| "store_fails P en _ s = False"

text \<open>The kinds of emits and of inputs.\<close>

fun is_initial_events :: "session list \<times> msg \<Rightarrow> bool" where
  "is_initial_events (rs, Initial_events evs) = True"
| "is_initial_events _ = False"

fun is_events_updated :: "session list \<times> msg \<Rightarrow> bool" where
  "is_events_updated (rs, Events_updated evs) = True"
| "is_events_updated _ = False"

fun is_new_event :: "session list \<times> msg \<Rightarrow> bool" where
  "is_new_event (rs, New_event e) = True"
| "is_new_event _ = False"

fun is_connection :: "input \<times> env \<Rightarrow> bool" where
  "is_connection (Connection sock, en) = True"
| "is_connection _ = False"

fun is_write :: "input \<times> env \<Rightarrow> bool" where
  "is_write (Connection sock, en) = False"
| "is_write (Disconnect sock, en) = False"
| "is_write _ = True"

subsection \<open>Concrete inputs\<close>

definition ex_parse :: "string \<Rightarrow> int option" where
  "ex_parse s =
     (if s = ''2024-01-01T10:00'' then Some 1704103200000
      else if s = ''2024-01-01T11:00'' then Some 1704106800000
      else if s = ''2024-02-01T00:00'' then Some 1706745600000
      else None)"

definition ex_env :: env where
  "ex_env = \<lparr>write_ok = True, query_ok = True, fetch_ok = True, auto_id = ''k1''\<rparr>"

definition ex_server :: server where
  "ex_server = \<lparr>store = [], sockets = [], sent = [], console = []\<rparr>"

definition ex_alice :: jsobj where
  "ex_alice = [(''title'', JStr ''Alice''), (''start'', JStr ''2024-01-01T10:00''),
               (''end'', JStr ''2024-01-01T11:00'')]"

definition ex_two :: "(input \<times> env) list" where
  "ex_two = [(Connection 1, ex_env), (Connection 2, ex_env)]"

definition ex_doc :: doc where
  "ex_doc = [(''title'', FJs (JStr ''Alice'')), (''start'', FTime (Some 1704103200000)),
             (''end'', FTime (Some 1704106800000)), (''isTentative'', FJs (JBool False)),
             (''notes'', FJs (JStr ''''))]"

definition ex_late :: doc where
  "ex_late = [(''title'', FJs (JStr ''Bob'')), (''start'', FTime (Some 1706745600000)),
             (''end'', FTime (Some 1706749200000)), (''isTentative'', FJs (JBool True)),
             (''notes'', FJs (JStr ''late''))]"

definition ex_live :: server where
  "ex_live = \<lparr>store = [(''k2'', ex_late), (''k1'', ex_doc)], sockets = [1, 2], sent = [],
               console = []\<rparr>"

definition ex_cutoff :: jsobj where
  "ex_cutoff = [(''beforeDate'', JStr ''2024-02-01T00:00'')]"

definition ex_alice_id :: jsobj where
  "ex_alice_id = [(''id'', JStr ''mine''), (''title'', JStr ''Alice''),
                  (''start'', JStr ''2024-01-01T10:00''), (''end'', JNum 1704106800000.7)]"

definition ex_retitle :: jsobj where
  "ex_retitle = [(''id'', JStr ''k1''), (''title'', JStr ''Alice B''),
                 (''start'', JStr ''2024-01-01T10:00''), (''end'', JStr ''2024-01-01T11:00'')]"

definition ex_reset :: jsobj where
  "ex_reset = [(''id'', JStr ''k2''), (''title'', JStr ''Bob''),
               (''start'', JStr ''2024-02-01T00:00''), (''end'', JNull), (''notes'', JNum 0)]"

definition ex_bad :: jsobj where
  "ex_bad = [(''id'', JStr ''k1''), (''title'', JStr ''x''), (''start'', JStr ''next tuesday'')]"

definition ex_session :: "(input \<times> env) list" where
  "ex_session =
     [(Connection 1, ex_env), (Add_event 1 ex_alice, ex_env),
      (Connection 2, ex_env\<lparr>fetch_ok := False\<rparr>),
      (Delete_event 2 (JStr ''k1''), ex_env), (Disconnect 1, ex_env)]"

definition ex_events :: "event list" where
  "ex_events =
     [[(''id'', WJs (JStr ''k1'')), (''title'', WJs (JStr ''Alice'')),
       (''start'', WDate (Some 1704103200000)), (''end'', WDate (Some 1704106800000)),
       (''isTentative'', WJs (JBool False)), (''notes'', WJs (JStr ''''))],
      [(''id'', WJs (JStr ''k2'')), (''title'', WJs (JStr ''Bob'')),
       (''start'', WDate (Some 1706745600000)), (''end'', WDate (Some 1706749200000)),
       (''isTentative'', WJs (JBool True)), (''notes'', WJs (JStr ''late''))]]"

section \<open>Properties\<close>

lemmas handler_defs = run_def connection_def add_event_def update_event_def delete_event_def
  manual_delete_old_events_def disconnect_def broadcastEvents_def console_log_def
  console_error_def fetch_events_def orderBy_start_get_def where_end_lt_get_def batch_commit_def
  coll_add_def coll_doc_def doc_update_def doc_delete_def write_fields_def event_fields_def
  get_prop_def js_or_def to_event_def spread_def has_start_def start_key_def end_before_def
  timed_def Let_def

lemmas ex_defs = ex_parse_def ex_env_def ex_server_def ex_alice_def ex_two_def ex_doc_def
  ex_late_def ex_live_def

lemmas ex_payload_defs = ex_alice_id_def ex_retitle_def ex_reset_def ex_bad_def ex_cutoff_def
  ex_events_def

subsection \<open>What \<open>broadcastEvents\<close> changes\<close>

lemma store_broadcastEvents: "store (broadcastEvents ok s) = store s"
  by (simp add: broadcastEvents_def console_log_def console_error_def Let_def split: sum.splits)

lemma sockets_broadcastEvents: "sockets (broadcastEvents ok s) = sockets s"
  by (simp add: broadcastEvents_def console_log_def console_error_def Let_def split: sum.splits)

lemma sent_broadcastEvents:
  "sent (broadcastEvents ok s) =
     (case fetch_events ok (store s) of Inl x \<Rightarrow> sent s
      | Inr evs \<Rightarrow> sent s @ [(sockets s, Events_updated evs)])"
  by (simp add: broadcastEvents_def console_log_def console_error_def Let_def split: sum.splits)

lemma console_broadcastEvents:
  "console (broadcastEvents ok s) =
     (case fetch_events ok (store s) of
        Inl x \<Rightarrow> console s @ [Log ''Broadcasting events...'', LogError ''Error broadcasting events:'']
      | Inr evs \<Rightarrow> console s @ [Log ''Broadcasting events...'', Log ''Events to broadcast:''])"
  by (simp add: broadcastEvents_def console_log_def console_error_def Let_def split: sum.splits)

lemma fetch_events_content:
  assumes "fetch_events ok st = Inr evs" and "\<forall>e\<in>set st. has_start e"
  shows "\<exists>ds. mset ds = mset st \<and> sorted (map start_key ds) \<and> map_events ds = Inr evs"
proof -
  from assms(2) have f: "filter has_start st = st" by (simp add: filter_id_conv)
  let ?ds = "sort_key start_key st"
  from assms(1) f have "map_events ?ds = Inr evs"
    by (simp add: fetch_events_def orderBy_start_get_def split: if_splits)
  moreover have "mset ?ds = mset st" by simp
  moreover have "sorted (map start_key ?ds)" by (rule sorted_sort_key)
  ultimately show ?thesis by blast
qed

lemma map_of_write_fields:
  "map_of (write_fields fs d) = map_of d ++ map_of (rev fs)"
  unfolding write_fields_def
proof (induction fs arbitrary: d)
  case Nil
  show ?case by simp
next
  case (Cons f fs)
  obtain k v where f: "f = (k, v)" by (cases f)
  show ?case by (simp add: f Cons update_conv' map_add_def fun_eq_iff split: option.splits)
qed

subsection \<open>The fetch on a collection of timed documents\<close>

lemma timed_iff:
  "timed e \<longleftrightarrow> (\<exists>a b. map_of (snd e) ''start'' = Some (FTime a) \<and> map_of (snd e) ''end'' = Some (FTime b))"
  by (auto simp: timed_def split: option.splits fval.splits)

lemma timed_has_start: "timed e \<Longrightarrow> has_start e"
  by (auto simp: timed_iff has_start_def)

lemma to_event_timed: "timed e \<Longrightarrow> \<exists>v. to_event e = Inr v"
  by (auto simp: timed_iff to_event_def)

lemma map_events_timed: "\<forall>e\<in>set ds. timed e \<Longrightarrow> \<exists>evs. map_events ds = Inr evs"
proof (induction ds)
  case Nil
  show ?case by simp
next
  case (Cons d ds)
  then obtain v evs where "to_event d = Inr v" "map_events ds = Inr evs"
    using to_event_timed by fastforce
  then show ?case by simp
qed

lemma fetch_events_timed:
  assumes "\<forall>e\<in>set st. timed e"
  shows "\<exists>ds evs. mset ds = mset st \<and> sorted (map start_key ds) \<and> map_events ds = Inr evs
           \<and> fetch_events True st = Inr evs"
proof -
  let ?ds = "sort_key start_key st"
  from assms have f: "filter has_start st = st"
    by (simp add: filter_id_conv timed_has_start)
  from assms have "\<forall>e\<in>set ?ds. timed e" by simp
  then obtain evs where e: "map_events ?ds = Inr evs" using map_events_timed by blast
  with f have "fetch_events True st = Inr evs"
    by (simp add: fetch_events_def orderBy_start_get_def)
  moreover have "mset ?ds = mset st" by simp
  moreover have "sorted (map start_key ?ds)" by (rule sorted_sort_key)
  ultimately show ?thesis using e by blast
qed

lemma fetch_events_fail: "fetch_events False st = Inl StoreFailure"
  by (simp add: fetch_events_def orderBy_start_get_def)

lemma timed_event_fields: "timed (k, event_fields P data)"
  by (simp add: timed_def event_fields_def)

lemma timed_write_fields: "timed (k, write_fields (event_fields P data) d)"
  by (simp add: timed_iff map_of_write_fields event_fields_def map_add_def)

subsection \<open>The handlers keep the documents timed\<close>

lemma coll_add_timed:
  "coll_add ok k (event_fields P data) st = Inr st' \<Longrightarrow> \<forall>e\<in>set st. timed e \<Longrightarrow> \<forall>e\<in>set st'. timed e"
  by (auto simp: coll_add_def timed_event_fields split: if_splits)

lemma doc_update_timed:
  "doc_update ok k (event_fields P data) st = Inr st' \<Longrightarrow> \<forall>e\<in>set st. timed e \<Longrightarrow> \<forall>e\<in>set st'. timed e"
  by (auto simp: doc_update_def timed_write_fields split: if_splits)

lemma doc_delete_timed:
  "doc_delete ok k st = Inr st' \<Longrightarrow> \<forall>e\<in>set st. timed e \<Longrightarrow> \<forall>e\<in>set st'. timed e"
  by (auto simp: doc_delete_def split: if_splits)

lemma batch_commit_timed:
  "batch_commit ok ks st = Inr st' \<Longrightarrow> \<forall>e\<in>set st. timed e \<Longrightarrow> \<forall>e\<in>set st'. timed e"
  by (auto simp: batch_commit_def split: if_splits)

lemma step_timed:
  assumes "\<forall>e\<in>set (store s). timed e"
  shows "\<forall>e\<in>set (store (step P s ie)). timed e"
proof -
  obtain i en where ie: "ie = (i, en)" by (cases ie)
  show ?thesis
  proof (cases i)
    case (Connection sock)
    with assms ie show ?thesis
      by (simp add: connection_def console_log_def console_error_def Let_def split: sum.splits)
  next
    case (Add_event sock p)
    with assms ie show ?thesis
      using coll_add_timed [of "write_ok en" "auto_id en" P p "store s"]
      by (simp add: add_event_def console_log_def console_error_def store_broadcastEvents
               split: sum.splits)
  next
    case (Update_event sock p)
    with assms ie show ?thesis
      using doc_update_timed [of "write_ok en" _ P "AList.delete ''id'' p" "store s"]
      by (simp add: update_event_def console_log_def console_error_def store_broadcastEvents
               Let_def split: sum.splits)
  next
    case (Delete_event sock v)
    with assms ie show ?thesis
      using doc_delete_timed [of "write_ok en" _ "store s"]
      by (simp add: delete_event_def console_log_def console_error_def store_broadcastEvents
               split: sum.splits)
  next
    case (Manual_delete_old_events sock p)
    with assms ie show ?thesis
      using batch_commit_timed [of "write_ok en" _ "store s"]
      by (simp add: manual_delete_old_events_def console_log_def console_error_def
               store_broadcastEvents Let_def split: sum.splits option.splits)
  next
    case (Disconnect sock)
    with assms ie show ?thesis
      by (simp add: disconnect_def console_log_def)
  qed
qed

lemma run_timed:
  "\<forall>e\<in>set (store s). timed e \<Longrightarrow> \<forall>e\<in>set (store (run P s ins)). timed e"
  unfolding run_def
proof (induction ins arbitrary: s)
  case Nil
  then show ?case by simp
next
  case (Cons a ins)
  from Cons.prems have "\<forall>e\<in>set (store (step P s a)). timed e" by (rule step_timed)
  then show ?case using Cons.IH by simp
qed

lemma doc_delete_missing:
  "i \<notin> set (map fst st) \<Longrightarrow> doc_delete True i st = Inr st"
  by (force simp: doc_delete_def filter_id_conv)

subsection \<open>The handlers keep the ids distinct\<close>

lemma run_Cons: "run P s (a # ins) = run P (step P s a) ins"
  by (simp add: run_def)

lemma doc_update_ids: "doc_update ok r fs st = Inr st' \<Longrightarrow> map fst st' = map fst st"
  by (auto simp: doc_update_def split: if_splits)

lemma step_distinct:
  assumes "distinct (map fst (store s))"
  shows "distinct (map fst (store (step P s ie)))"
proof -
  obtain i en where ie: "ie = (i, en)" by (cases ie)
  show ?thesis
  proof (cases i)
    case (Connection sock)
    with assms ie show ?thesis
      by (simp add: connection_def console_log_def console_error_def Let_def split: sum.splits)
  next
    case (Add_event sock p)
    with assms ie show ?thesis
      by (auto simp: add_event_def coll_add_def console_log_def console_error_def
            store_broadcastEvents split: sum.splits if_splits)
  next
    case (Update_event sock p)
    with assms ie show ?thesis
      by (auto simp: update_event_def console_log_def console_error_def store_broadcastEvents
            Let_def split: sum.splits dest: doc_update_ids)
  next
    case (Delete_event sock v)
    with assms ie show ?thesis
      by (auto simp: delete_event_def doc_delete_def console_log_def console_error_def
            store_broadcastEvents distinct_map_filter split: sum.splits if_splits)
  next
    case (Manual_delete_old_events sock p)
    with assms ie show ?thesis
      by (auto simp: manual_delete_old_events_def batch_commit_def console_log_def
            console_error_def store_broadcastEvents distinct_map_filter Let_def
            split: sum.splits option.splits if_splits)
  next
    case (Disconnect sock)
    with assms ie show ?thesis by (simp add: disconnect_def console_log_def)
  qed
qed

lemma run_distinct:
  "distinct (map fst (store s)) \<Longrightarrow> distinct (map fst (store (run P s ins)))"
proof (induction ins arbitrary: s)
  case Nil
  then show ?case by (simp add: run_def)
next
  case (Cons a ins)
  from Cons.prems have "distinct (map fst (store (step P s a)))" by (rule step_distinct)
  then show ?case using Cons.IH by (simp add: run_Cons)
qed

subsection \<open>The events of a fetch\<close>

lemma map_of_spread:
  "distinct (map fst d) \<Longrightarrow>
     map_of (spread d obj) k = (case map_of d k of Some v \<Rightarrow> Some (wire v) | None \<Rightarrow> map_of obj k)"
  unfolding spread_def
proof (induction d arbitrary: obj)
  case Nil
  show ?case by simp
next
  case (Cons f d)
  obtain a b where f: "f = (a, b)" by (cases f)
  from Cons.prems f have d: "distinct (map fst d)" and a: "map_of d a = None"
    by (simp_all add: map_of_eq_None_iff)
  show ?case
    using Cons.IH [OF d, of "AList.update a (wire b) obj"] a
    by (simp add: f update_conv' split: option.splits)
qed

lemma to_event_carries:
  assumes "fields_distinct e" and "to_event e = Inr ev"
  shows "map_of ev k = event_field e k"
proof -
  from assms(2) obtain s t where
    s: "map_of (snd e) ''start'' = Some (FTime s)" and t: "map_of (snd e) ''end'' = Some (FTime t)"
    and ev: "ev = AList.update ''end'' (WDate t) (AList.update ''start'' (WDate s)
                    (spread (snd e) [(''id'', WJs (JStr (fst e)))]))"
    by (auto simp: to_event_def split: sum.splits elim!: toDate.elims)
  from assms(1) have d: "distinct (map fst (snd e))" by (simp add: fields_distinct_def)
  show ?thesis
    by (simp add: ev update_conv' map_of_spread [OF d] event_field_def s t split: option.splits)
qed

lemma map_events_carries:
  assumes "\<forall>e\<in>set ds. fields_distinct e" and "map_events ds = Inr evs"
  shows "list_all2 (\<lambda>e ev. \<forall>k. map_of ev k = event_field e k) ds evs"
  using assms
proof (induction ds arbitrary: evs)
  case Nil
  then show ?case by simp
next
  case (Cons d ds)
  from Cons.prems(2) obtain v vs where
    v: "to_event d = Inr v" and vs: "map_events ds = Inr vs" and evs: "evs = v # vs"
    by (auto split: sum.splits)
  from Cons.prems(1) have "fields_distinct d" and "\<forall>e\<in>set ds. fields_distinct e" by simp_all
  with v vs Cons.IH show ?case by (simp add: evs to_event_carries)
qed

lemma fetch_events_full:
  assumes "\<forall>e\<in>set st. timed e" and "\<forall>e\<in>set st. fields_distinct e"
  shows "\<exists>ds evs. mset ds = mset st \<and> sorted (map start_key ds)
           \<and> list_all2 (\<lambda>e ev. \<forall>k. map_of ev k = event_field e k) ds evs
           \<and> map_events ds = Inr evs \<and> fetch_events True st = Inr evs"
proof -
  let ?ds = "sort_key start_key st"
  from assms(1) have f: "filter has_start st = st"
    by (simp add: filter_id_conv timed_has_start)
  from assms(1) have "\<forall>e\<in>set ?ds. timed e" by simp
  then obtain evs where e: "map_events ?ds = Inr evs" using map_events_timed by blast
  from assms(2) have "\<forall>e\<in>set ?ds. fields_distinct e" by simp
  from map_events_carries [OF this e]
  have c: "list_all2 (\<lambda>e ev. \<forall>k. map_of ev k = event_field e k) ?ds evs" .
  from e f have "fetch_events True st = Inr evs"
    by (simp add: fetch_events_def orderBy_start_get_def)
  moreover have "mset ?ds = mset st" by simp
  moreover have "sorted (map start_key ?ds)" by (rule sorted_sort_key)
  ultimately show ?thesis using e c by blast
qed

lemma fields_distinct_event_fields: "fields_distinct (k, event_fields P data)"
  by (simp add: fields_distinct_def event_fields_def)

lemma distinct_write_fields:
  "distinct (map fst d) \<Longrightarrow> distinct (map fst (write_fields fs d))"
  unfolding write_fields_def
proof (induction fs arbitrary: d)
  case Nil
  then show ?case by simp
next
  case (Cons f fs)
  obtain a b where f: "f = (a, b)" by (cases f)
  from Cons.prems have "distinct (map fst (AList.update a b d))" by (rule distinct_update)
  from Cons.IH [OF this] show ?case by (simp add: f)
qed

lemma step_fields_distinct:
  assumes "\<forall>e\<in>set (store s). fields_distinct e"
  shows "\<forall>e\<in>set (store (step P s ie)). fields_distinct e"
proof -
  obtain i en where ie: "ie = (i, en)" by (cases ie)
  show ?thesis
  proof (cases i)
    case (Connection sock)
    with assms ie show ?thesis
      by (simp add: connection_def console_log_def console_error_def Let_def split: sum.splits)
  next
    case (Add_event sock p)
    with assms ie show ?thesis
      by (auto simp: add_event_def coll_add_def console_log_def console_error_def
            store_broadcastEvents fields_distinct_event_fields split: sum.splits if_splits)
  next
    case (Update_event sock p)
    with assms ie show ?thesis
      by (auto simp: update_event_def doc_update_def console_log_def console_error_def
            store_broadcastEvents Let_def fields_distinct_def distinct_write_fields
            split: sum.splits if_splits)
  next
    case (Delete_event sock v)
    with assms ie show ?thesis
      by (auto simp: delete_event_def doc_delete_def console_log_def console_error_def
            store_broadcastEvents split: sum.splits if_splits)
  next
    case (Manual_delete_old_events sock p)
    with assms ie show ?thesis
      by (auto simp: manual_delete_old_events_def batch_commit_def console_log_def
            console_error_def store_broadcastEvents Let_def
            split: sum.splits option.splits if_splits)
  next
    case (Disconnect sock)
    with assms ie show ?thesis by (simp add: disconnect_def console_log_def)
  qed
qed

lemma run_fields_distinct:
  "\<forall>e\<in>set (store s). fields_distinct e \<Longrightarrow> \<forall>e\<in>set (store (run P s ins)). fields_distinct e"
proof (induction ins arbitrary: s)
  case Nil
  then show ?case by (simp add: run_def)
next
  case (Cons a ins)
  from Cons.prems have "\<forall>e\<in>set (store (step P s a)). fields_distinct e"
    by (rule step_fields_distinct)
  then show ?case using Cons.IH by (simp add: run_Cons)
qed

lemma batch_commit_matches:
  assumes "distinct (map fst st)"
  shows "filter (\<lambda>(k, d). k \<notin> set (map fst (filter Q st))) st = filter (\<lambda>e. \<not> Q e) st"
proof (rule filter_cong [OF refl])
  fix e assume e: "e \<in> set st"
  obtain k d where kd: "e = (k, d)" by (cases e)
  have "k \<in> fst ` {x \<in> set st. Q x} \<longleftrightarrow> Q (k, d)"
  proof
    assume "k \<in> fst ` {x \<in> set st. Q x}"
    then obtain d' where d': "(k, d') \<in> set st" "Q (k, d')" by auto
    from assms d'(1) e kd have "d' = d" by (metis eq_key_imp_eq_value)
    with d'(2) show "Q (k, d)" by simp
  next
    assume "Q (k, d)"
    with e kd show "k \<in> fst ` {x \<in> set st. Q x}" by force
  qed
  then show "(case e of (k, d) \<Rightarrow> k \<notin> set (map fst (filter Q st))) = (\<not> Q e)"
    by (simp add: kd)
qed

subsection \<open>What the handlers write\<close>

lemma get_prop_delete: "k \<noteq> j \<Longrightarrow> get_prop (AList.delete j obj) k = get_prop obj k"
  by (simp add: get_prop_def delete_conv')

lemma event_fields_cong:
  assumes "\<forall>k. k \<noteq> ''id'' \<longrightarrow> get_prop p k = get_prop q k"
  shows "event_fields P p = event_fields P q"
  using assms by (simp add: event_fields_def)

lemma event_fields_delete_id: "event_fields P (AList.delete ''id'' p) = event_fields P p"
  by (rule event_fields_cong) (simp add: get_prop_delete)

lemma write_fields_other:
  assumes "k \<notin> set (map fst fs)"
  shows "map_of (write_fields fs d) k = map_of d k"
proof -
  from assms have "map_of (rev fs) k = None" by (simp add: map_of_eq_None_iff)
  then show ?thesis by (simp add: map_of_write_fields map_add_def)
qed

lemma store_update_event:
  "store (update_event P en p s) =
     (case coll_doc (get_prop p ''id'') of
        Inl x \<Rightarrow> store s
      | Inr r \<Rightarrow> (case doc_update (write_ok en) r (event_fields P p) (store s) of
                    Inl x \<Rightarrow> store s | Inr st \<Rightarrow> st))"
  by (simp add: update_event_def event_fields_delete_id store_broadcastEvents console_log_def
        console_error_def split: sum.splits)

lemma coll_doc_Inr: "coll_doc v = Inr r \<longleftrightarrow> v = JStr r \<and> r \<noteq> []"
  by (auto simp: coll_doc_def split: jsval.splits)


lemma map_of_event_fields:
  "map_of (write_fields (event_fields P p) d) ''title'' = Some (FJs (get_prop p ''title''))"
  "map_of (write_fields (event_fields P p) d) ''start'' = Some (FTime (new_Date P (get_prop p ''start'')))"
  "map_of (write_fields (event_fields P p) d) ''end'' = Some (FTime (new_Date P (get_prop p ''end'')))"
  "map_of (write_fields (event_fields P p) d) ''isTentative'' =
     Some (FJs (js_or (get_prop p ''isTentative'') (JBool False)))"
  "map_of (write_fields (event_fields P p) d) ''notes'' =
     Some (FJs (js_or (get_prop p ''notes'') (JStr '''')))"
  by (simp_all add: map_of_write_fields event_fields_def map_add_def)

lemma update_event_target:
  assumes "coll_doc (get_prop p ''id'') = Inr r" "write_ok en" "r \<in> set (map fst (store s))"
  shows "store (update_event P en p s) =
           map (\<lambda>(k, d). if k = r then (k, write_fields (event_fields P p) d) else (k, d)) (store s)"
  using assms by (simp add: store_update_event doc_update_def)

lemma update_event_ids:
  assumes "coll_doc (get_prop p ''id'') = Inr r" "write_ok en" "r \<in> set (map fst (store s))"
  shows "map fst (store (update_event P en p s)) = map fst (store s)"
  unfolding update_event_target [OF assms] by (induction "store s") auto

lemma update_event_written:
  assumes "coll_doc (get_prop p ''id'') = Inr r" "write_ok en" "r \<in> set (map fst (store s))"
    and "(r, d') \<in> set (store (update_event P en p s))"
  shows "\<exists>d. d' = write_fields (event_fields P p) d"
  using assms(4) unfolding update_event_target [OF assms(1-3)] by (auto split: if_splits)

subsection \<open>What the handlers emit\<close>

lemma sent_broadcast_cases:
  "sent (broadcastEvents ok s) = sent s
   \<or> (\<exists>evs. sent (broadcastEvents ok s) = sent s @ [(sockets s, Events_updated evs)])"
  by (simp add: sent_broadcastEvents split: sum.splits)

lemma step_sent:
  "sent (step P s ie) = sent s
   \<or> (is_connection ie \<and> (\<exists>rs evs. sent (step P s ie) = sent s @ [(rs, Initial_events evs)]))
   \<or> (is_write ie \<and> (\<exists>rs evs. sent (step P s ie) = sent s @ [(rs, Events_updated evs)]))"
proof -
  obtain i en where ie: "ie = (i, en)" by (cases ie)
  show ?thesis
  proof (cases i)
    case (Connection sock)
    with ie show ?thesis
      by (simp add: connection_def console_log_def console_error_def Let_def split: sum.splits)
  next
    case (Add_event sock p)
    show ?thesis
    proof (cases "coll_add (write_ok en) (auto_id en) (event_fields P p) (store s)")
      case (Inl x)
      with ie Add_event show ?thesis by (simp add: add_event_def console_error_def)
    next
      case (Inr st)
      with ie Add_event
        sent_broadcast_cases [of "fetch_ok en" "console_log ''New event added with ID:'' (s\<lparr>store := st\<rparr>)"]
      show ?thesis by (auto simp: add_event_def console_log_def)
    qed
  next
    case (Update_event sock p)
    show ?thesis
    proof (cases "coll_doc (get_prop p ''id'')")
      case (Inl x)
      with ie Update_event show ?thesis by (simp add: update_event_def console_error_def)
    next
      case r: (Inr r)
      show ?thesis
      proof (cases "doc_update (write_ok en) r (event_fields P (AList.delete ''id'' p)) (store s)")
        case (Inl x)
        with ie Update_event r show ?thesis by (simp add: update_event_def console_error_def)
      next
        case (Inr st)
        with ie Update_event r
          sent_broadcast_cases [of "fetch_ok en" "console_log ''Event updated with ID:'' (s\<lparr>store := st\<rparr>)"]
        show ?thesis by (auto simp: update_event_def console_log_def)
      qed
    qed
  next
    case (Delete_event sock v)
    show ?thesis
    proof (cases "coll_doc v")
      case (Inl x)
      with ie Delete_event show ?thesis by (simp add: delete_event_def console_error_def)
    next
      case r: (Inr r)
      show ?thesis
      proof (cases "doc_delete (write_ok en) r (store s)")
        case (Inl x)
        with ie Delete_event r show ?thesis by (simp add: delete_event_def console_error_def)
      next
        case (Inr st)
        with ie Delete_event r
          sent_broadcast_cases [of "fetch_ok en" "console_log ''Event deleted with ID:'' (s\<lparr>store := st\<rparr>)"]
        show ?thesis by (auto simp: delete_event_def console_log_def)
      qed
    qed
  next
    case (Manual_delete_old_events sock p)
    have "sent (manual_delete_old_events P en p s) = sent s
      \<or> (\<exists>rs evs. sent (manual_delete_old_events P en p s) = sent s @ [(rs, Events_updated evs)])"
      by (auto simp: manual_delete_old_events_def console_log_def console_error_def Let_def
            sent_broadcastEvents split: option.splits sum.splits)
    with ie Manual_delete_old_events show ?thesis by auto
  next
    case (Disconnect sock)
    with ie show ?thesis by (simp add: disconnect_def console_log_def)
  qed
qed

lemma step_fetch_fails:
  assumes "\<not> fetch_ok en"
  shows "sent (step P s (i, en)) = sent s"
proof (cases i)
  case (Connection sock)
  with assms show ?thesis
    by (simp add: connection_def console_log_def console_error_def fetch_events_fail)
next
  case (Add_event sock p)
  with assms show ?thesis
    by (simp add: add_event_def console_log_def console_error_def sent_broadcastEvents
          fetch_events_fail split: sum.splits)
next
  case (Update_event sock p)
  with assms show ?thesis
    by (simp add: update_event_def console_log_def console_error_def sent_broadcastEvents
          fetch_events_fail Let_def split: sum.splits)
next
  case (Delete_event sock v)
  with assms show ?thesis
    by (simp add: delete_event_def console_log_def console_error_def sent_broadcastEvents
          fetch_events_fail split: sum.splits)
next
  case (Manual_delete_old_events sock p)
  with assms show ?thesis
    by (simp add: manual_delete_old_events_def console_log_def console_error_def
          sent_broadcastEvents fetch_events_fail Let_def split: sum.splits option.splits)
next
  case (Disconnect sock)
  then show ?thesis by (simp add: disconnect_def console_log_def)
qed

lemma store_fails_sent:
  assumes "store_fails P en i s"
  shows "sent (step P s (i, en)) = sent s"
proof (cases i)
  case (Add_event sock p)
  with assms show ?thesis
    by (auto simp: add_event_def console_error_def split: sum.splits)
next
  case (Update_event sock p)
  with assms show ?thesis
    by (auto simp: update_event_def console_error_def split: sum.splits)
next
  case (Delete_event sock v)
  with assms show ?thesis
    by (auto simp: delete_event_def console_error_def split: sum.splits)
next
  case (Manual_delete_old_events sock p)
  with assms show ?thesis
    by (auto simp: manual_delete_old_events_def console_error_def console_log_def Let_def
          split: sum.splits option.splits if_splits)
qed (use assms in simp_all)

lemma mutation_sent:
  assumes mut: "is_mutation i" and ok: "\<not> store_fails P en i s"
  shows "sent (step P s (i, en)) =
           (case fetch_events (fetch_ok en) (store (step P s (i, en))) of
              Inl x \<Rightarrow> sent s
            | Inr evs \<Rightarrow> sent s @ [(sockets (step P s (i, en)), Events_updated evs)])"
proof (cases i)
  case (Add_event sock p)
  with ok obtain st where
    st: "coll_add (write_ok en) (auto_id en) (event_fields P p) (store s) = Inr st"
    by (cases "coll_add (write_ok en) (auto_id en) (event_fields P p) (store s)") auto
  show ?thesis unfolding Add_event using st
    by (simp add: add_event_def store_broadcastEvents sockets_broadcastEvents
          sent_broadcastEvents console_log_def split: sum.splits)
next
  case (Update_event sock p)
  with ok obtain r where r: "coll_doc (get_prop p ''id'') = Inr r"
    by (cases "coll_doc (get_prop p ''id'')") auto
  with ok Update_event obtain st where
    st: "doc_update (write_ok en) r (event_fields P (AList.delete ''id'' p)) (store s) = Inr st"
    by (cases "doc_update (write_ok en) r (event_fields P (AList.delete ''id'' p)) (store s)") auto
  show ?thesis unfolding Update_event using r st
    by (simp add: update_event_def store_broadcastEvents sockets_broadcastEvents
          sent_broadcastEvents console_log_def split: sum.splits)
next
  case (Delete_event sock v)
  with ok obtain r where r: "coll_doc v = Inr r"
    by (cases "coll_doc v") auto
  with ok Delete_event obtain st where st: "doc_delete (write_ok en) r (store s) = Inr st"
    by (cases "doc_delete (write_ok en) r (store s)") auto
  show ?thesis unfolding Delete_event using r st
    by (simp add: delete_event_def store_broadcastEvents sockets_broadcastEvents
          sent_broadcastEvents console_log_def split: sum.splits)
qed (use mut in simp_all)

lemma run_sent:
  "(\<forall>x\<in>set (sent (run P s ins)). x \<in> set (sent s) \<or> is_initial_events x \<or> is_events_updated x)
   \<and> length (filter is_initial_events (sent (run P s ins)))
       \<le> length (filter is_initial_events (sent s)) + length (filter is_connection ins)
   \<and> length (filter is_events_updated (sent (run P s ins)))
       \<le> length (filter is_events_updated (sent s)) + length (filter is_write ins)"
proof (induction ins arbitrary: s)
  case Nil
  show ?case by (simp add: run_def)
next
  case (Cons a ins)
  note IH = Cons.IH [of "step P s a"]
  from step_sent [of P s a]
  have a: "(\<forall>x\<in>set (sent (step P s a)). x \<in> set (sent s) \<or> is_initial_events x \<or> is_events_updated x)
     \<and> length (filter is_initial_events (sent (step P s a)))
         \<le> length (filter is_initial_events (sent s)) + (if is_connection a then 1 else 0)
     \<and> length (filter is_events_updated (sent (step P s a)))
         \<le> length (filter is_events_updated (sent s)) + (if is_write a then 1 else 0)"
    by auto
  have "\<forall>x\<in>set (sent (run P s (a # ins))). x \<in> set (sent s) \<or> is_initial_events x \<or> is_events_updated x"
    using IH a unfolding run_Cons by blast
  moreover have "length (filter is_initial_events (sent (run P s (a # ins))))
       \<le> length (filter is_initial_events (sent s)) + length (filter is_connection (a # ins))"
    using IH a unfolding run_Cons by (simp split: if_splits)
  moreover have "length (filter is_events_updated (sent (run P s (a # ins))))
       \<le> length (filter is_events_updated (sent s)) + length (filter is_write (a # ins))"
    using IH a unfolding run_Cons by (simp split: if_splits)
  ultimately show ?case by blast
qed

lemma not_new_event: "is_initial_events x \<or> is_events_updated x \<Longrightarrow> \<not> is_new_event x"
  by (cases x rule: is_new_event.cases) auto


section \<open>Claims\<close>

text \<open>
  C1. After each add, update or delete, in any run of the server from a collection of
  timed documents, whichever socket sent the request: when the handler's store operation
  or the fetch after it fails, nothing is sent; otherwise the handler makes exactly one
  emit, \<open>events_updated\<close>, to all connected sockets, and the list sent is the
  collection as it now is: one event for every document, by ascending \<open>start\<close>, each
  event holding its document's id and fields.
\<close>

theorem broadcast_is_store_content:
  assumes inv: "\<forall>e\<in>set (store s0). timed e" and fd: "\<forall>e\<in>set (store s0). fields_distinct e"
    and mut: "is_mutation i"
  shows "if store_fails P en i (run P s0 ins) \<or> \<not> fetch_ok en
         then sent (step P (run P s0 ins) (i, en)) = sent (run P s0 ins)
         else \<exists>ds evs. mset ds = mset (store (step P (run P s0 ins) (i, en)))
                \<and> sorted (map start_key ds)
                \<and> list_all2 (\<lambda>e ev. \<forall>k. map_of ev k = event_field e k) ds evs
                \<and> map_events ds = Inr evs
                \<and> sent (step P (run P s0 ins) (i, en)) =
                    sent (run P s0 ins)
                      @ [(sockets (step P (run P s0 ins) (i, en)), Events_updated evs)]"
proof (cases "store_fails P en i (run P s0 ins) \<or> \<not> fetch_ok en")
  case True
  then show ?thesis using store_fails_sent step_fetch_fails by auto
next
  case False
  then have ok: "\<not> store_fails P en i (run P s0 ins)" and f: "fetch_ok en" by simp_all
  let ?s' = "step P (run P s0 ins) (i, en)"
  have "\<forall>e\<in>set (store ?s'). timed e"
    using step_timed [OF run_timed [OF inv]] by blast
  moreover have "\<forall>e\<in>set (store ?s'). fields_distinct e"
    using step_fields_distinct [OF run_fields_distinct [OF fd]] by blast
  ultimately obtain ds evs where
    "mset ds = mset (store ?s')" "sorted (map start_key ds)"
    "list_all2 (\<lambda>e ev. \<forall>k. map_of ev k = event_field e k) ds evs"
    "map_events ds = Inr evs" "fetch_events True (store ?s') = Inr evs"
    using fetch_events_full by blast
  moreover from mutation_sent [OF mut ok] f this(5)
  have "sent ?s' = sent (run P s0 ins) @ [(sockets ?s', Events_updated evs)]" by simp
  ultimately show ?thesis using False by auto
qed

theorem broadcast_is_store_content_witness:
  "sent (step ex_parse (run ex_parse ex_server ex_two) (Add_event 1 ex_alice, ex_env)) =
     sent (run ex_parse ex_server ex_two)
       @ [([1, 2], Events_updated
            [[(''id'', WJs (JStr ''k1'')), (''title'', WJs (JStr ''Alice'')),
              (''start'', WDate (Some 1704103200000)), (''end'', WDate (Some 1704106800000)),
              (''isTentative'', WJs (JBool False)), (''notes'', WJs (JStr ''''))]])]
   \<and> (\<exists>ds evs. mset ds = mset (store (step ex_parse (run ex_parse ex_server ex_two) (Add_event 1 ex_alice, ex_env)))
      \<and> sorted (map start_key ds)
      \<and> list_all2 (\<lambda>e ev. \<forall>k. map_of ev k = event_field e k) ds evs
      \<and> sent (step ex_parse (run ex_parse ex_server ex_two) (Add_event 1 ex_alice, ex_env)) =
          sent (run ex_parse ex_server ex_two) @ [([1, 2], Events_updated evs)])"
proof -
  have inv: "\<forall>e\<in>set (store ex_server). timed e" by (simp add: ex_server_def)
  have fd: "\<forall>e\<in>set (store ex_server). fields_distinct e" by (simp add: ex_server_def)
  have mut: "is_mutation (Add_event 1 ex_alice)" by simp
  have ok: "\<not> (store_fails ex_parse ex_env (Add_event 1 ex_alice) (run ex_parse ex_server ex_two)
              \<or> \<not> fetch_ok ex_env)"
    by (simp add: handler_defs ex_defs)
  have socks: "sockets (step ex_parse (run ex_parse ex_server ex_two) (Add_event 1 ex_alice, ex_env)) = [1, 2]"
    by (simp add: handler_defs ex_defs)
  have conc: "sent (step ex_parse (run ex_parse ex_server ex_two) (Add_event 1 ex_alice, ex_env)) =
     sent (run ex_parse ex_server ex_two)
       @ [([1, 2], Events_updated
            [[(''id'', WJs (JStr ''k1'')), (''title'', WJs (JStr ''Alice'')),
              (''start'', WDate (Some 1704103200000)), (''end'', WDate (Some 1704106800000)),
              (''isTentative'', WJs (JBool False)), (''notes'', WJs (JStr ''''))]])]"
    by (simp add: handler_defs ex_defs)
  from broadcast_is_store_content [OF inv fd mut, of ex_parse ex_env ex_two] ok
  have "\<exists>ds evs. mset ds = mset (store (step ex_parse (run ex_parse ex_server ex_two) (Add_event 1 ex_alice, ex_env)))
      \<and> sorted (map start_key ds)
      \<and> list_all2 (\<lambda>e ev. \<forall>k. map_of ev k = event_field e k) ds evs
      \<and> map_events ds = Inr evs
      \<and> sent (step ex_parse (run ex_parse ex_server ex_two) (Add_event 1 ex_alice, ex_env)) =
          sent (run ex_parse ex_server ex_two)
            @ [(sockets (step ex_parse (run ex_parse ex_server ex_two) (Add_event 1 ex_alice, ex_env)),
                Events_updated evs)]"
    by (simp only: if_False)
  then have "\<exists>ds evs. mset ds = mset (store (step ex_parse (run ex_parse ex_server ex_two) (Add_event 1 ex_alice, ex_env)))
      \<and> sorted (map start_key ds)
      \<and> list_all2 (\<lambda>e ev. \<forall>k. map_of ev k = event_field e k) ds evs
      \<and> sent (step ex_parse (run ex_parse ex_server ex_two) (Add_event 1 ex_alice, ex_env)) =
          sent (run ex_parse ex_server ex_two) @ [([1, 2], Events_updated evs)]"
    unfolding socks by blast
  with conc show ?thesis by blast
qed

text \<open>
  C2 as stated fails: a delete of an id that names no document leaves the collection as
  it is, and the handler goes on to \<open>broadcastEvents\<close>, which emits.
\<close>

theorem delete_missing_counterexample:
  "''nope'' \<notin> set (map fst (store ex_live))
   \<and> store (delete_event ex_env (JStr ''nope'') ex_live) = store ex_live
   \<and> sent (delete_event ex_env (JStr ''nope'') ex_live) \<noteq> sent ex_live
   \<and> length (sent (delete_event ex_env (JStr ''nope'') ex_live)) = Suc (length (sent ex_live))
   \<and> fst (last (sent (delete_event ex_env (JStr ''nope'') ex_live))) = [1, 2]"
  by (simp add: handler_defs ex_defs)

text \<open>
  C2, amended. A \<open>delete_event\<close> whose id names no document leaves the collection
  unchanged; when the store's delete and the fetch after it both succeed, one
  \<open>events_updated\<close> still goes to all sockets, carrying the unchanged collection (one
  event for every document, by ascending \<open>start\<close>, each holding its document's id and
  fields), and otherwise nothing is sent.
\<close>

theorem delete_missing_still_broadcasts:
  assumes inv: "\<forall>e\<in>set (store s). timed e" and fd: "\<forall>e\<in>set (store s). fields_distinct e"
    and ref: "coll_doc eventId = Inr r" and missing: "r \<notin> set (map fst (store s))"
  shows "store (delete_event en eventId s) = store s
         \<and> (if write_ok en \<and> fetch_ok en
            then \<exists>ds evs. mset ds = mset (store s) \<and> sorted (map start_key ds)
                   \<and> list_all2 (\<lambda>e ev. \<forall>k. map_of ev k = event_field e k) ds evs
                   \<and> map_events ds = Inr evs
                   \<and> sent (delete_event en eventId s) = sent s @ [(sockets s, Events_updated evs)]
            else sent (delete_event en eventId s) = sent s)"
proof (cases "write_ok en")
  case False
  with ref show ?thesis
    by (simp add: delete_event_def doc_delete_def console_error_def)
next
  case w: True
  have del: "doc_delete (write_ok en) r (store s) = Inr (store s)"
    using w missing by (simp add: doc_delete_missing)
  have st: "store (delete_event en eventId s) = store s"
    using ref del by (simp add: delete_event_def store_broadcastEvents console_log_def)
  show ?thesis
  proof (cases "fetch_ok en")
    case False
    with ref del st show ?thesis
      by (simp add: delete_event_def sent_broadcastEvents console_log_def fetch_events_fail)
  next
    case True
    from fetch_events_full [OF inv fd] obtain ds evs where
      "mset ds = mset (store s)" "sorted (map start_key ds)"
      "list_all2 (\<lambda>e ev. \<forall>k. map_of ev k = event_field e k) ds evs"
      "map_events ds = Inr evs" "fetch_events True (store s) = Inr evs" by blast
    with True w ref del st show ?thesis
      by (auto simp: delete_event_def sent_broadcastEvents console_log_def)
  qed
qed

theorem delete_missing_still_broadcasts_witness:
  "list_all timed (store ex_live) \<and> list_all fields_distinct (store ex_live)
   \<and> coll_doc (JStr ''nope'') = Inr ''nope''
   \<and> ''nope'' \<notin> set (map fst (store ex_live))
   \<and> store (delete_event ex_env (JStr ''nope'') ex_live) = store ex_live
   \<and> sent (delete_event ex_env (JStr ''nope'') ex_live) =
        sent ex_live @ [([1, 2], Events_updated ex_events)]
   \<and> (\<exists>ds evs. mset ds = mset (store ex_live) \<and> sorted (map start_key ds)
         \<and> list_all2 (\<lambda>e ev. \<forall>k. map_of ev k = event_field e k) ds evs
         \<and> sent (delete_event ex_env (JStr ''nope'') ex_live) =
             sent ex_live @ [(sockets ex_live, Events_updated evs)])"
proof -
  have inv: "\<forall>e\<in>set (store ex_live). timed e" by (simp add: ex_defs timed_def)
  have fd: "\<forall>e\<in>set (store ex_live). fields_distinct e"
    by (simp add: ex_defs fields_distinct_def)
  have ref: "coll_doc (JStr ''nope'') = Inr ''nope''" by (simp add: coll_doc_def)
  have missing: "''nope'' \<notin> set (map fst (store ex_live))" by (simp add: ex_defs)
  have ok: "write_ok ex_env \<and> fetch_ok ex_env" by (simp add: ex_env_def)
  have conc: "sent (delete_event ex_env (JStr ''nope'') ex_live) =
        sent ex_live @ [([1, 2], Events_updated ex_events)]"
    by (simp add: handler_defs ex_defs ex_events_def)
  from delete_missing_still_broadcasts [OF inv fd ref missing, of ex_env] ok
  have "store (delete_event ex_env (JStr ''nope'') ex_live) = store ex_live
     \<and> (\<exists>ds evs. mset ds = mset (store ex_live) \<and> sorted (map start_key ds)
         \<and> list_all2 (\<lambda>e ev. \<forall>k. map_of ev k = event_field e k) ds evs
         \<and> sent (delete_event ex_env (JStr ''nope'') ex_live) =
             sent ex_live @ [(sockets ex_live, Events_updated evs)])"
    by (simp only: simp_thms if_True) blast
  moreover from inv fd have "list_all timed (store ex_live)" "list_all fields_distinct (store ex_live)"
    by (simp_all add: list_all_iff)
  ultimately show ?thesis using ref missing conc by blast
qed

text \<open>
  C3. When the calls to the store succeed, \<open>manual_delete_old_events\<close> with cutoff \<open>C\<close>
  leaves in the collection exactly the documents whose \<open>end\<close> is not strictly before
  \<open>C\<close>, each as it was. When no document is older, nothing is sent; otherwise the one
  commit is followed by exactly one \<open>events_updated\<close>, to all sockets, with the
  collection as it now is.
\<close>

theorem manual_delete_removes_older:
  assumes inv: "\<forall>e\<in>set (store s). timed e" and ids: "distinct (map fst (store s))"
    and ok: "query_ok en" "write_ok en" "fetch_ok en"
  shows "store (manual_delete_old_events P en data s) =
           filter (\<lambda>e. \<not> older_than (new_Date P (get_prop data ''beforeDate'')) e) (store s)
         \<and> (if filter (older_than (new_Date P (get_prop data ''beforeDate''))) (store s) = []
            then sent (manual_delete_old_events P en data s) = sent s
            else \<exists>ds evs. mset ds = mset (store (manual_delete_old_events P en data s))
                   \<and> sorted (map start_key ds) \<and> map_events ds = Inr evs
                   \<and> sent (manual_delete_old_events P en data s) =
                       sent s @ [(sockets s, Events_updated evs)])"
proof (cases "new_Date P (get_prop data ''beforeDate'')")
  case None
  then show ?thesis
    by (simp add: manual_delete_old_events_def older_than_def console_error_def)
next
  case (Some c)
  let ?old = "filter (end_before c) (store s)"
  have o: "older_than (Some c) = end_before c" by (simp add: older_than_def fun_eq_iff)
  show ?thesis
  proof (cases "?old = []")
    case True
    then have "filter (\<lambda>e. \<not> end_before c e) (store s) = store s"
      by (simp add: filter_empty_conv filter_id_conv)
    with True Some ok show ?thesis
      by (simp add: manual_delete_old_events_def o where_end_lt_get_def console_log_def)
  next
    case False
    let ?st = "filter (\<lambda>e. \<not> end_before c e) (store s)"
    have commit: "batch_commit (write_ok en) (map fst ?old) (store s) = Inr ?st"
      using ok batch_commit_matches [OF ids, of "end_before c"] by (simp add: batch_commit_def)
    from inv have "\<forall>e\<in>set ?st. timed e" by simp
    from fetch_events_timed [OF this] obtain ds evs where
      "mset ds = mset ?st" "sorted (map start_key ds)" "map_events ds = Inr evs"
      "fetch_events True ?st = Inr evs" by blast
    with False Some ok commit show ?thesis
      by (auto simp: manual_delete_old_events_def o where_end_lt_get_def console_log_def
            store_broadcastEvents sent_broadcastEvents)
  qed
qed

theorem manual_delete_removes_older_witness:
  "list_all timed (store ex_live) \<and> distinct (map fst (store ex_live))
   \<and> query_ok ex_env \<and> write_ok ex_env \<and> fetch_ok ex_env
   \<and> store (manual_delete_old_events ex_parse ex_env ex_cutoff ex_live) = [(''k2'', ex_late)]
   \<and> (\<exists>ds evs. mset ds = mset (store (manual_delete_old_events ex_parse ex_env ex_cutoff ex_live))
         \<and> sorted (map start_key ds) \<and> map_events ds = Inr evs
         \<and> sent (manual_delete_old_events ex_parse ex_env ex_cutoff ex_live) =
             sent ex_live @ [([1, 2], Events_updated evs)])"
proof -
  have inv: "\<forall>e\<in>set (store ex_live). timed e" by (simp add: ex_defs timed_def)
  have ids: "distinct (map fst (store ex_live))" by (simp add: ex_defs)
  have ok: "query_ok ex_env" "write_ok ex_env" "fetch_ok ex_env" by (simp_all add: ex_env_def)
  have cut: "new_Date ex_parse (get_prop ex_cutoff ''beforeDate'') = Some 1706745600000"
    by (simp add: ex_cutoff_def get_prop_def ex_parse_def)
  have old: "filter (older_than (Some 1706745600000)) (store ex_live) = [(''k1'', ex_doc)]"
    by (simp add: older_than_def end_before_def ex_defs)
  have new: "filter (\<lambda>e. \<not> older_than (Some 1706745600000) e) (store ex_live) = [(''k2'', ex_late)]"
    by (simp add: older_than_def end_before_def ex_defs)
  have socks: "sockets ex_live = [1, 2]" by (simp add: ex_defs)
  note T = manual_delete_removes_older [OF inv ids ok, of ex_parse ex_cutoff, unfolded cut old]
  have s1: "store (manual_delete_old_events ex_parse ex_env ex_cutoff ex_live) = [(''k2'', ex_late)]"
    using T [THEN conjunct1] new by simp
  have s2: "\<exists>ds evs. mset ds = mset (store (manual_delete_old_events ex_parse ex_env ex_cutoff ex_live))
         \<and> sorted (map start_key ds) \<and> map_events ds = Inr evs
         \<and> sent (manual_delete_old_events ex_parse ex_env ex_cutoff ex_live) =
             sent ex_live @ [([1, 2], Events_updated evs)]"
    using T [THEN conjunct2] by (simp only: list.distinct if_False socks)
  have s0: "list_all timed (store ex_live)" using inv by (simp add: list_all_iff)
  from s0 ids ok s1 s2 show ?thesis by blast
qed

text \<open>
  C4. An \<open>add_event\<close> that the store accepts appends one document, under the id the store
  generated: \<open>title\<close> as sent, \<open>start\<close> and \<open>end\<close> through \<open>new Date\<close>,
  \<open>isTentative\<close> false and \<open>notes\<close> the empty string when absent (and when falsy). An
  \<open>id\<close> in the payload changes nothing: the handler does the same with it, with another
  one, or without.
\<close>

theorem add_event_stores:
  assumes ok: "write_ok en" and fresh: "auto_id en \<notin> set (map fst (store s))"
  shows "store (add_event P en newEvent s) =
           store s @ [(auto_id en,
             [(''title'', FJs (get_prop newEvent ''title'')),
              (''start'', FTime (new_Date P (get_prop newEvent ''start''))),
              (''end'', FTime (new_Date P (get_prop newEvent ''end''))),
              (''isTentative'', FJs (if map_of newEvent ''isTentative'' = None then JBool False
                                     else js_or (get_prop newEvent ''isTentative'') (JBool False))),
              (''notes'', FJs (if map_of newEvent ''notes'' = None then JStr ''''
                               else js_or (get_prop newEvent ''notes'') (JStr '''')))])]
         \<and> add_event P en (AList.update ''id'' v newEvent) s = add_event P en newEvent s
         \<and> add_event P en (AList.delete ''id'' newEvent) s = add_event P en newEvent s"
proof -
  have "event_fields P (AList.update ''id'' v newEvent) = event_fields P newEvent"
    by (rule event_fields_cong) (simp add: get_prop_def update_conv')
  moreover note event_fields_delete_id [of P newEvent]
  moreover have "store (add_event P en newEvent s) = store s @ [(auto_id en, event_fields P newEvent)]"
    using ok fresh by (simp add: add_event_def coll_add_def store_broadcastEvents console_log_def)
  ultimately show ?thesis
    by (simp add: add_event_def) (simp add: event_fields_def get_prop_def js_or_def)
qed

theorem add_event_stores_witness:
  "write_ok ex_env \<and> auto_id ex_env \<notin> set (map fst (store ex_server))
   \<and> store (add_event ex_parse ex_env ex_alice_id ex_server) = [(''k1'', ex_doc)]"
proof -
  have ok: "write_ok ex_env" by (simp add: ex_env_def)
  have fresh: "auto_id ex_env \<notin> set (map fst (store ex_server))" by (simp add: ex_server_def)
  from add_event_stores [OF ok fresh, of ex_parse ex_alice_id] ok fresh
  show ?thesis
    by (simp add: ex_defs ex_payload_defs get_prop_def js_or_def TimeClip_def)
qed

text \<open>
  C5. The fields \<open>update_event\<close> writes are \<open>title\<close>, \<open>start\<close>, \<open>end\<close>,
  \<open>isTentative\<close> and \<open>notes\<close>: no \<open>id\<close>. After the handler every document is under
  the id it had, any field outside those five (an \<open>id\<close> field among them) is as it was,
  and a document other than the one the payload's \<open>id\<close> names is untouched.
\<close>

theorem update_event_keeps_id:
  "map fst (event_fields P (AList.delete ''id'' updatedEvent)) =
     [''title'', ''start'', ''end'', ''isTentative'', ''notes'']
   \<and> map fst (store (update_event P en updatedEvent s)) = map fst (store s)
   \<and> list_all2 (\<lambda>e e'. fst e' = fst e
         \<and> (\<forall>k. k \<notin> set [''title'', ''start'', ''end'', ''isTentative'', ''notes'']
                \<longrightarrow> map_of (snd e') k = map_of (snd e) k)
         \<and> (JStr (fst e) \<noteq> get_prop updatedEvent ''id'' \<longrightarrow> e' = e))
       (store s) (store (update_event P en updatedEvent s))"
proof -
  let ?R = "\<lambda>e e'. fst e' = fst e
         \<and> (\<forall>k. k \<notin> set [''title'', ''start'', ''end'', ''isTentative'', ''notes'']
                \<longrightarrow> map_of (snd e') k = map_of (snd e) k)
         \<and> (JStr (fst e) \<noteq> get_prop updatedEvent ''id'' \<longrightarrow> e' = e)"
  have keys: "map fst (event_fields P q) = [''title'', ''start'', ''end'', ''isTentative'', ''notes'']" for q
    by (simp add: event_fields_def)
  have same: "list_all2 ?R (store s) (store s)"
    by (simp add: list_all2_same)
  have upd: "list_all2 ?R (store s)
      (map (\<lambda>(k, d). if k = r then (k, write_fields (event_fields P updatedEvent) d) else (k, d)) (store s))"
    if "get_prop updatedEvent ''id'' = JStr r" for r
    unfolding list_all2_map2
  proof (rule list_all2_same [THEN iffD2], rule ballI)
    fix e assume "e \<in> set (store s)"
    obtain k d where kd: "e = (k, d)" by (cases e)
    have "map_of (write_fields (event_fields P updatedEvent) d) j = map_of d j"
      if "j \<notin> set [''title'', ''start'', ''end'', ''isTentative'', ''notes'']" for j
      using that write_fields_other [of j "event_fields P updatedEvent" d] by (simp add: keys)
    then show "?R e (case e of (k, d) \<Rightarrow> if k = r then (k, write_fields (event_fields P updatedEvent) d) else (k, d))"
      using that by (simp add: kd)
  qed
  have "list_all2 ?R (store s) (store (update_event P en updatedEvent s))"
    using same upd
    by (auto simp: store_update_event doc_update_def coll_doc_Inr split: sum.splits if_splits)
  then have "map fst (store (update_event P en updatedEvent s)) = map fst (store s)"
    by (induction rule: list_all2_induct) simp_all
  with keys \<open>list_all2 ?R (store s) (store (update_event P en updatedEvent s))\<close>
  show ?thesis by blast
qed

theorem update_event_keeps_id_witness:
  "map fst (store (update_event ex_parse ex_env ex_retitle ex_live)) = [''k2'', ''k1'']
   \<and> hd (store (update_event ex_parse ex_env ex_retitle ex_live)) = (''k2'', ex_late)
   \<and> list_all (\<lambda>e. map_of (snd e) ''id'' = None)
       (store (update_event ex_parse ex_env ex_retitle ex_live))"
proof -
  let ?st' = "store (update_event ex_parse ex_env ex_retitle ex_live)"
  let ?R = "\<lambda>e e'. fst e' = fst e
         \<and> (\<forall>k. k \<notin> set [''title'', ''start'', ''end'', ''isTentative'', ''notes'']
                \<longrightarrow> map_of (snd e') k = map_of (snd e) k)
         \<and> (JStr (fst e) \<noteq> get_prop ex_retitle ''id'' \<longrightarrow> e' = e)"
  note T = update_event_keeps_id [of ex_parse ex_retitle ex_env ex_live]
  have st: "store ex_live = [(''k2'', ex_late), (''k1'', ex_doc)]" by (simp add: ex_live_def)
  have i: "get_prop ex_retitle ''id'' = JStr ''k1''" by (simp add: ex_retitle_def get_prop_def)
  have n: "map_of ex_late ''id'' = None" "map_of ex_doc ''id'' = None"
    by (simp_all add: ex_late_def ex_doc_def)
  have k: "''id'' \<notin> set [''title'', ''start'', ''end'', ''isTentative'', ''notes'']" by simp
  from T have a: "map fst ?st' = [''k2'', ''k1'']"
    by (simp only: st list.map fst_conv)
  from T have "list_all2 ?R [(''k2'', ex_late), (''k1'', ex_doc)] ?st'"
    by (simp only: st)
  then obtain z y where zy: "?st' = [z, y]" and z: "?R (''k2'', ex_late) z" and y: "?R (''k1'', ex_doc) y"
    by (auto simp only: list_all2_Cons1 list_all2_Nil)
  from z i have z': "z = (''k2'', ex_late)" by simp
  from y k have "map_of (snd y) ''id'' = map_of (snd (''k1'', ex_doc)) ''id''" by blast
  with n have y': "map_of (snd y) ''id'' = None" by simp
  from a zy z' y' n show ?thesis by simp
qed

text \<open>
  C6. When the store operation of an add, update, delete or bulk delete fails, the handler
  leaves the collection and the sockets as they were, emits nothing (to the initiating
  socket or any other), and its last console line is an error. When it is the fetch of
  \<open>broadcastEvents\<close> that fails, nothing is emitted either.
\<close>

theorem store_failure_aborts:
  "(store_fails P en i s \<longrightarrow>
      store (step P s (i, en)) = store s \<and> sent (step P s (i, en)) = sent s
      \<and> sockets (step P s (i, en)) = sockets s
      \<and> (\<exists>pre m. console (step P s (i, en)) = console s @ pre @ [LogError m]))
   \<and> (\<not> fetch_ok en \<longrightarrow> sent (step P s (i, en)) = sent s)"
proof (intro conjI impI)
  assume f: "store_fails P en i s"
  have "store (step P s (i, en)) = store s \<and> sent (step P s (i, en)) = sent s
         \<and> sockets (step P s (i, en)) = sockets s
         \<and> (\<exists>pre m. console (step P s (i, en)) = console s @ pre @ [LogError m])"
  proof (cases i)
    case (Add_event sock p)
    with f show ?thesis
      by (auto simp: add_event_def console_error_def split: sum.splits)
  next
    case (Update_event sock p)
    with f show ?thesis
      by (auto simp: update_event_def console_error_def split: sum.splits)
  next
    case (Delete_event sock v)
    with f show ?thesis
      by (auto simp: delete_event_def console_error_def split: sum.splits)
  next
    case (Manual_delete_old_events sock p)
    with f show ?thesis
      by (auto simp: manual_delete_old_events_def console_error_def console_log_def Let_def
            split: sum.splits option.splits if_splits
            intro: exI [of _ "[Log ''Manual request to delete events before'']"])
  qed (use f in simp_all)
  then show "store (step P s (i, en)) = store s" and "sent (step P s (i, en)) = sent s"
    and "sockets (step P s (i, en)) = sockets s"
    and "\<exists>pre m. console (step P s (i, en)) = console s @ pre @ [LogError m]"
    by blast+
next
  assume "\<not> fetch_ok en"
  then show "sent (step P s (i, en)) = sent s" by (rule step_fetch_fails)
qed

theorem store_failure_aborts_witness:
  "store_fails ex_parse (ex_env\<lparr>write_ok := False\<rparr>) (Add_event 1 ex_alice) ex_live
   \<and> store (step ex_parse ex_live (Add_event 1 ex_alice, ex_env\<lparr>write_ok := False\<rparr>)) = store ex_live
   \<and> sent (step ex_parse ex_live (Add_event 1 ex_alice, ex_env\<lparr>write_ok := False\<rparr>)) = sent ex_live
   \<and> store_fails ex_parse (ex_env\<lparr>write_ok := False\<rparr>) (Manual_delete_old_events 2 ex_cutoff) ex_live
   \<and> store (step ex_parse ex_live (Manual_delete_old_events 2 ex_cutoff, ex_env\<lparr>write_ok := False\<rparr>))
        = store ex_live
   \<and> sent (step ex_parse ex_live (Manual_delete_old_events 2 ex_cutoff, ex_env\<lparr>write_ok := False\<rparr>))
        = sent ex_live
   \<and> \<not> fetch_ok (ex_env\<lparr>fetch_ok := False\<rparr>)
   \<and> sent (step ex_parse ex_live (Delete_event 2 (JStr ''k1''), ex_env\<lparr>fetch_ok := False\<rparr>))
        = sent ex_live"
proof -
  have f1: "store_fails ex_parse (ex_env\<lparr>write_ok := False\<rparr>) (Add_event 1 ex_alice) ex_live"
    by (simp add: coll_add_def ex_env_def)
  have f2: "store_fails ex_parse (ex_env\<lparr>write_ok := False\<rparr>) (Manual_delete_old_events 2 ex_cutoff) ex_live"
    by (simp add: handler_defs ex_defs ex_cutoff_def)
  have f3: "\<not> fetch_ok (ex_env\<lparr>fetch_ok := False\<rparr>)" by simp
  from store_failure_aborts [of ex_parse "ex_env\<lparr>write_ok := False\<rparr>" "Add_event 1 ex_alice" ex_live]
       store_failure_aborts [of ex_parse "ex_env\<lparr>write_ok := False\<rparr>" "Manual_delete_old_events 2 ex_cutoff" ex_live]
       store_failure_aborts [of ex_parse "ex_env\<lparr>fetch_ok := False\<rparr>" "Delete_event 2 (JStr ''k1'')" ex_live]
       f1 f2 f3
  show ?thesis by blast
qed

text \<open>
  C7. On a connection, when the fetch succeeds the server makes exactly one emit,
  \<open>initial_events\<close>, to the connecting socket alone, carrying the whole collection: one
  event for every document, by ascending \<open>start\<close>, each holding its document's id and
  fields. When the fetch fails it sends nothing and logs the error.
\<close>

theorem connection_initial_events:
  assumes "\<forall>e\<in>set (store s). timed e" and "\<forall>e\<in>set (store s). fields_distinct e"
  shows "if fetch_ok en
         then \<exists>ds evs. mset ds = mset (store s) \<and> sorted (map start_key ds)
                \<and> list_all2 (\<lambda>e ev. \<forall>k. map_of ev k = event_field e k) ds evs
                \<and> map_events ds = Inr evs
                \<and> sent (connection en sock s) = sent s @ [([sock], Initial_events evs)]
         else sent (connection en sock s) = sent s
                \<and> console (connection en sock s) =
                    console s @ [Log ''a user connected'', LogError ''Error sending initial events:'']"
proof (cases "fetch_ok en")
  case True
  from fetch_events_full [OF assms] obtain ds evs where
    "mset ds = mset (store s)" "sorted (map start_key ds)"
    "list_all2 (\<lambda>e ev. \<forall>k. map_of ev k = event_field e k) ds evs"
    "map_events ds = Inr evs" "fetch_events True (store s) = Inr evs" by blast
  with True show ?thesis
    by (auto simp: connection_def console_log_def Let_def)
next
  case False
  then show ?thesis
    by (simp add: connection_def console_log_def console_error_def Let_def fetch_events_fail)
qed

theorem connection_initial_events_witness:
  "list_all timed (store ex_live) \<and> list_all fields_distinct (store ex_live)
   \<and> sent (connection ex_env 3 ex_live) = sent ex_live @ [([3], Initial_events ex_events)]
   \<and> (\<exists>ds evs. mset ds = mset (store ex_live) \<and> sorted (map start_key ds)
         \<and> list_all2 (\<lambda>e ev. \<forall>k. map_of ev k = event_field e k) ds evs
         \<and> sent (connection ex_env 3 ex_live) = sent ex_live @ [([3], Initial_events evs)])
   \<and> sent (connection (ex_env\<lparr>fetch_ok := False\<rparr>) 3 ex_live) = sent ex_live
   \<and> console (connection (ex_env\<lparr>fetch_ok := False\<rparr>) 3 ex_live) =
       console ex_live @ [Log ''a user connected'', LogError ''Error sending initial events:'']"
proof -
  have inv: "\<forall>e\<in>set (store ex_live). timed e" by (simp add: ex_defs timed_def)
  have fd: "\<forall>e\<in>set (store ex_live). fields_distinct e"
    by (simp add: ex_defs fields_distinct_def)
  have conc: "sent (connection ex_env 3 ex_live) = sent ex_live @ [([3], Initial_events ex_events)]"
    by (simp add: handler_defs ex_defs ex_events_def)
  have ok: "fetch_ok ex_env" "\<not> fetch_ok (ex_env\<lparr>fetch_ok := False\<rparr>)" by (simp_all add: ex_env_def)
  from connection_initial_events [OF inv fd, of ex_env 3] ok(1)
  have a: "\<exists>ds evs. mset ds = mset (store ex_live) \<and> sorted (map start_key ds)
         \<and> list_all2 (\<lambda>e ev. \<forall>k. map_of ev k = event_field e k) ds evs
         \<and> sent (connection ex_env 3 ex_live) = sent ex_live @ [([3], Initial_events evs)]"
    by (simp only: if_True) blast
  from connection_initial_events [OF inv fd, of "ex_env\<lparr>fetch_ok := False\<rparr>" 3] ok(2)
  have b: "sent (connection (ex_env\<lparr>fetch_ok := False\<rparr>) 3 ex_live) = sent ex_live
   \<and> console (connection (ex_env\<lparr>fetch_ok := False\<rparr>) 3 ex_live) =
       console ex_live @ [Log ''a user connected'', LogError ''Error sending initial events:'']"
    by (simp only: if_False)
  from inv fd have "list_all timed (store ex_live)" "list_all fields_distinct (store ex_live)"
    by (simp_all add: list_all_iff)
  with a b conc show ?thesis by blast
qed




text \<open>
  C9. In any run of the server that starts with nothing sent, no emit is \<open>new_event\<close>:
  every emit is \<open>initial_events\<close> or \<open>events_updated\<close>, with at most one
  \<open>initial_events\<close> per connection and at most one \<open>events_updated\<close> per mutation
  request.
\<close>

theorem new_event_never_emitted:
  assumes "sent s0 = []"
  shows "(\<forall>x\<in>set (sent (run P s0 ins)).
            \<not> is_new_event x \<and> (is_initial_events x \<or> is_events_updated x))
         \<and> length (filter is_initial_events (sent (run P s0 ins)))
             \<le> length (filter is_connection ins)
         \<and> length (filter is_events_updated (sent (run P s0 ins)))
             \<le> length (filter is_write ins)"
proof -
  from run_sent [of P s0 ins] assms
  have a: "\<forall>x\<in>set (sent (run P s0 ins)). is_initial_events x \<or> is_events_updated x"
    and b: "length (filter is_initial_events (sent (run P s0 ins))) \<le> length (filter is_connection ins)"
    and c: "length (filter is_events_updated (sent (run P s0 ins))) \<le> length (filter is_write ins)"
    by simp_all
  from a have "\<forall>x\<in>set (sent (run P s0 ins)).
            \<not> is_new_event x \<and> (is_initial_events x \<or> is_events_updated x)"
    using not_new_event by blast
  with b c show ?thesis by blast
qed

theorem new_event_never_emitted_witness:
  "sent ex_server = []
   \<and> list_all (\<lambda>x. \<not> is_new_event x \<and> (is_initial_events x \<or> is_events_updated x))
       (sent (run ex_parse ex_server ex_session))
   \<and> length (sent (run ex_parse ex_server ex_session)) = 3"
proof -
  have e: "sent ex_server = []" by (simp add: ex_server_def)
  have l: "length (sent (run ex_parse ex_server ex_session)) = 3"
    by (simp add: handler_defs ex_defs ex_session_def)
  from new_event_never_emitted [OF e, of ex_parse ex_session] e l
  show ?thesis by (simp add: list_all_iff)
qed

text \<open>
  C10. An \<open>update_event\<close> that the store accepts overwrites all five fields of its target
  from the payload alone: \<open>isTentative\<close> becomes false and \<open>notes\<close> the empty string
  whenever the payload's value is absent or falsy, whatever the document held.
\<close>

theorem update_event_overwrites:
  assumes ref: "coll_doc (get_prop p ''id'') = Inr r" and ok: "write_ok en"
    and ex: "r \<in> set (map fst (store s))"
  shows "r \<in> set (map fst (store (update_event P en p s)))
         \<and> (\<forall>d'. (r, d') \<in> set (store (update_event P en p s)) \<longrightarrow>
               map_of d' ''title'' = Some (FJs (get_prop p ''title''))
             \<and> map_of d' ''start'' = Some (FTime (new_Date P (get_prop p ''start'')))
             \<and> map_of d' ''end'' = Some (FTime (new_Date P (get_prop p ''end'')))
             \<and> map_of d' ''isTentative'' =
                 Some (FJs (if truthy (get_prop p ''isTentative'') then get_prop p ''isTentative''
                            else JBool False))
             \<and> map_of d' ''notes'' =
                 Some (FJs (if truthy (get_prop p ''notes'') then get_prop p ''notes''
                            else JStr '''')))"
proof (intro conjI allI impI)
  show "r \<in> set (map fst (store (update_event P en p s)))"
    using ex by (simp only: update_event_ids [OF ref ok ex])
next
  fix d' assume "(r, d') \<in> set (store (update_event P en p s))"
  from update_event_written [OF ref ok ex this]
  obtain d where d: "d' = write_fields (event_fields P p) d" ..
  show "map_of d' ''title'' = Some (FJs (get_prop p ''title''))"
    and "map_of d' ''start'' = Some (FTime (new_Date P (get_prop p ''start'')))"
    and "map_of d' ''end'' = Some (FTime (new_Date P (get_prop p ''end'')))"
    and "map_of d' ''isTentative'' =
           Some (FJs (if truthy (get_prop p ''isTentative'') then get_prop p ''isTentative''
                      else JBool False))"
    and "map_of d' ''notes'' =
           Some (FJs (if truthy (get_prop p ''notes'') then get_prop p ''notes'' else JStr ''''))"
    by (simp_all add: d map_of_event_fields js_or_def)
qed

theorem update_event_overwrites_witness:
  "coll_doc (get_prop ex_reset ''id'') = Inr ''k2'' \<and> write_ok ex_env
   \<and> ''k2'' \<in> set (map fst (store ex_live))
   \<and> map_of ex_late ''isTentative'' = Some (FJs (JBool True))
   \<and> map_of ex_late ''notes'' = Some (FJs (JStr ''late''))
   \<and> (\<exists>d'. (''k2'', d') \<in> set (store (update_event ex_parse ex_env ex_reset ex_live))
          \<and> map_of d' ''end'' = Some (FTime (Some 0))
          \<and> map_of d' ''isTentative'' = Some (FJs (JBool False))
          \<and> map_of d' ''notes'' = Some (FJs (JStr '''')))"
proof -
  have ref: "coll_doc (get_prop ex_reset ''id'') = Inr ''k2''"
    by (simp add: ex_reset_def get_prop_def coll_doc_def)
  have ok: "write_ok ex_env" by (simp add: ex_env_def)
  have ex: "''k2'' \<in> set (map fst (store ex_live))" by (simp add: ex_defs)
  have old: "map_of ex_late ''isTentative'' = Some (FJs (JBool True))"
    "map_of ex_late ''notes'' = Some (FJs (JStr ''late''))" by (simp_all add: ex_late_def)
  have v: "get_prop ex_reset ''end'' = JNull" "get_prop ex_reset ''isTentative'' = JUndefined"
    "get_prop ex_reset ''notes'' = JNum 0" by (simp_all add: ex_reset_def get_prop_def)
  from update_event_overwrites [OF ref ok ex, of ex_parse]
  have "\<exists>d'. (''k2'', d') \<in> set (store (update_event ex_parse ex_env ex_reset ex_live))
          \<and> map_of d' ''end'' = Some (FTime (Some 0))
          \<and> map_of d' ''isTentative'' = Some (FJs (JBool False))
          \<and> map_of d' ''notes'' = Some (FJs (JStr ''''))"
    unfolding v by fastforce
  with ref ok ex old show ?thesis by blast
qed

end
